theory Spec2Isabelle
  imports Main "HOL-Library.Word"
begin

section \<open>Geometry: positions and planar transforms\<close>

text \<open>
  Go's \<open>int\<close> is a 64-bit two's complement integer on the platforms the solver is built
  for: \<open>+\<close>, \<open>-\<close> and \<open>*\<close> wrap around, comparisons are signed.
\<close>

type_synonym goint = "64 word"

text \<open>\<open>type Pos [2]int\<close>: row index first, column index second.\<close>

type_synonym Pos = "goint \<times> goint"

definition translate :: "Pos \<Rightarrow> Pos \<Rightarrow> Pos" where
  "translate p p2 = (fst p + fst p2, snd p + snd p2)"

text \<open>\<open>type Matrix [2][2]int\<close>: a pair of rows.\<close>

type_synonym Matrix = "(goint \<times> goint) \<times> (goint \<times> goint)"

definition Transform :: "Matrix \<Rightarrow> Pos \<Rightarrow> Pos" where
  "Transform m p =
     (fst (fst m) * fst p + snd (fst m) * snd p,
      fst (snd m) * fst p + snd (snd m) * snd p)"

definition Mult :: "Matrix \<Rightarrow> Matrix \<Rightarrow> Matrix" where
  "Mult m m2 =
     ((fst (fst m) * fst (fst m2) + snd (fst m) * fst (snd m2),
       fst (fst m) * snd (fst m2) + snd (fst m) * snd (snd m2)),
      (fst (snd m) * fst (fst m2) + snd (snd m) * fst (snd m2),
       fst (snd m) * snd (fst m2) + snd (snd m) * snd (snd m2)))"

definition Identity :: Matrix where
  "Identity = ((1, 0), (0, 1))"

definition Rot90 :: Matrix where
  "Rot90 = ((0, 1), (- 1, 0))"

definition Mirror :: Matrix where
  "Mirror = ((1, 0), (0, - 1))"

definition tx :: "Matrix list" where
  "tx = [Identity,
         Mirror,
         Rot90,
         Mult Rot90 Mirror,
         Mult Rot90 Rot90,
         Mult (Mult Rot90 Rot90) Rot90,
         Mult (Mult Rot90 Rot90) Mirror,
         Mult (Mult (Mult Rot90 Rot90) Rot90) Mirror]"

section \<open>Pieces and their orientations\<close>

record Piece =
  name :: string
  pos :: "Pos list"
  sym :: bool

definition transform :: "Piece \<Rightarrow> Matrix \<Rightarrow> Piece" where
  "transform p m = \<lparr>name = name p, pos = map (Transform m) (pos p), sym = sym p\<rparr>"

text \<open>
  The loop of \<open>allVersions\<close>: \<open>t\<close> is the index into \<open>tx\<close>, the list argument holds the
  transforms from index \<open>t\<close> on, \<open>res\<close> the orientations appended so far. A symmetric
  piece leaves the loop at index 4.
\<close>

fun allVersions_loop :: "Piece \<Rightarrow> nat \<Rightarrow> Matrix list \<Rightarrow> Piece list \<Rightarrow> Piece list" where
  "allVersions_loop p t [] res = res"
| "allVersions_loop p t (m # ms) res =
     (if sym p \<and> 4 \<le> t then res
      else allVersions_loop p (Suc t) ms (res @ [transform p m]))"

definition allVersions :: "Piece \<Rightarrow> Piece list" where
  "allVersions p = allVersions_loop p 0 tx []"

definition pieces :: "Piece list" where
  "pieces =
    [\<lparr>name = ''blue'', pos = [(0, 0), (0, 1), (0, 2), (1, 0)], sym = False\<rparr>,
     \<lparr>name = ''green'', pos = [(0, 0), (1, 0), (2, 0), (1, 1)], sym = True\<rparr>,
     \<lparr>name = ''lightblue'', pos = [(0, 0), (1, 0), (2, 0), (2, 1), (2, 2)], sym = True\<rparr>,
     \<lparr>name = ''maroon'', pos = [(0, 0), (0, 1), (1, 1), (1, 2)], sym = True\<rparr>,
     \<lparr>name = ''mint'', pos = [(0, 0), (0, 1), (0, 2), (1, 0), (1, 1)], sym = False\<rparr>,
     \<lparr>name = ''olive'', pos = [(0, 0), (1, 0), (2, 0), (0, 1), (2, 1)], sym = True\<rparr>,
     \<lparr>name = ''orange'', pos = [(0, 0), (1, 0), (1, 1), (1, 2), (2, 1)], sym = False\<rparr>,
     \<lparr>name = ''pink'', pos = [(0, 0), (0, 1), (0, 2), (1, 2), (1, 3)], sym = False\<rparr>,
     \<lparr>name = ''red'', pos = [(0, 0), (0, 1), (0, 2), (0, 3), (1, 0)], sym = False\<rparr>,
     \<lparr>name = ''turquoise'', pos = [(0, 0), (0, 1), (1, 0)], sym = False\<rparr>,
     \<lparr>name = ''violet'', pos = [(0, 0), (1, 0), (1, 1), (2, 1), (2, 2)], sym = True\<rparr>,
     \<lparr>name = ''yellow'', pos = [(0, 0), (0, 1), (0, 2), (0, 3), (1, 1)], sym = False\<rparr>]"

section \<open>Board, moves and the placement primitive\<close>

record Move =
  Piece :: Piece
  Translate :: Pos

definition image :: "Move \<Rightarrow> Pos list" where
  "image m = map (\<lambda>p. translate p (Translate m)) (pos (Piece m))"

definition DimX :: nat where
  "DimX = 5"

definition DimY :: nat where
  "DimY = 11"

text \<open>
  \<open>cells [DimX][DimY]bool\<close> is a list of \<open>DimX\<close> rows of \<open>DimY\<close> booleans; every value of
  the Go array type has exactly this shape.
\<close>

type_synonym Cells = "bool list list"

definition wf_cells :: "Cells \<Rightarrow> bool" where
  "wf_cells cs = (length cs = DimX \<and> list_all (\<lambda>r. length r = DimY) cs)"

record Game =
  moves :: "Move list"
  cells :: Cells
  count :: goint

text \<open>The error values the engine returns, and the ones of the two parsers.\<close>

datatype error =
  ErrBoardFull
  | ErrEmptyGame
  | ErrNotFull
  | ErrRows
  | ErrRowLength
  | ErrUnknownPiece

text \<open>
  A call either returns normally or stops the program with a run-time panic (an index
  out of range).
\<close>

datatype 'a exec = Panic | Done 'a

text \<open>The run-time range check of an index expression \<open>a[i]\<close> on an array of length \<open>n\<close>.\<close>

definition index_ok :: "goint \<Rightarrow> nat \<Rightarrow> bool" where
  "index_ok i n = (0 \<le>s i \<and> i <s word_of_nat n)"

definition read_cell :: "Cells \<Rightarrow> Pos \<Rightarrow> bool exec" where
  "read_cell cs p =
     (if index_ok (fst p) DimX \<and> index_ok (snd p) DimY
      then Done (cs ! unat (fst p) ! unat (snd p)) else Panic)"

definition write_cell :: "Cells \<Rightarrow> Pos \<Rightarrow> bool \<Rightarrow> Cells exec" where
  "write_cell cs p v =
     (if index_ok (fst p) DimX \<and> index_ok (snd p) DimY
      then Done (cs[unat (fst p) := (cs ! unat (fst p))[unat (snd p) := v]]) else Panic)"

text \<open>The explicit test of \<open>add\<close>: \<open>pi[0] < 0 || pi[0] >= DimX || pi[1] < 0 || pi[1] >= DimY\<close>.\<close>

definition off_board :: "Pos \<Rightarrow> bool" where
  "off_board p =
     (fst p <s 0 \<or> word_of_nat DimX \<le>s fst p \<or> snd p <s 0 \<or> word_of_nat DimY \<le>s snd p)"

text \<open>
  The first loop of \<open>add\<close>, over the offsets from index \<open>i\<close> on. \<open>Done None\<close> is the early
  \<open>return false, nil\<close>; \<open>Done (Some img)\<close> is the buffer \<open>image\<close> when the loop runs to its
  end. The buffer is a \<open>[5]Pos\<close>: storing at an index from 5 on panics.
\<close>

fun add_scan :: "Cells \<Rightarrow> Pos \<Rightarrow> nat \<Rightarrow> Pos list \<Rightarrow> Pos list \<Rightarrow> Pos list option exec" where
  "add_scan cs a i [] img = Done (Some img)"
| "add_scan cs a i (p # ps) img =
     (let pi = translate p a in
      if off_board pi then Done None
      else (case read_cell cs pi of
              Panic \<Rightarrow> Panic
            | Done occupied \<Rightarrow>
                if occupied then Done None
                else if i < length img then add_scan cs a (Suc i) ps (img[i := pi])
                else Panic))"

text \<open>The second loop of \<open>add\<close>: \<open>for i := range piece.pos\<close>, marking \<open>image[i]\<close>.\<close>

fun add_mark :: "Cells \<Rightarrow> Pos list \<Rightarrow> nat list \<Rightarrow> Cells exec" where
  "add_mark cs img [] = Done cs"
| "add_mark cs img (i # is) =
     (if i < length img
      then (case write_cell cs (img ! i) True of
              Panic \<Rightarrow> Panic
            | Done cs' \<Rightarrow> add_mark cs' img is)
      else Panic)"

text \<open>
  \<open>add\<close> returns \<open>(bool, error)\<close> and updates the game through its pointer receiver: the
  model returns the pair and the game after the call.
\<close>

definition add :: "Game \<Rightarrow> Piece \<Rightarrow> Pos \<Rightarrow> ((bool \<times> error option) \<times> Game) exec" where
  "add g piece a =
     (if word_of_nat (DimX * DimY) <s count g + word_of_nat (length (pos piece))
      then Done ((False, Some ErrBoardFull), g)
      else (case add_scan (cells g) a 0 (pos piece) (replicate 5 (0, 0)) of
              Panic \<Rightarrow> Panic
            | Done None \<Rightarrow> Done ((False, None), g)
            | Done (Some img) \<Rightarrow>
                (case add_mark (cells g) img [0..<length (pos piece)] of
                   Panic \<Rightarrow> Panic
                 | Done cs \<Rightarrow>
                     Done ((True, None),
                       g\<lparr>moves := moves g @ [\<lparr>Piece = piece, Translate = a\<rparr>],
                         count := count g + word_of_nat (length (pos piece)),
                         cells := cs\<rparr>))))"

text \<open>The loop of \<open>pop\<close>, clearing the translated offsets of the top move.\<close>

fun pop_clear :: "Cells \<Rightarrow> Pos \<Rightarrow> Pos list \<Rightarrow> Cells exec" where
  "pop_clear cs t [] = Done cs"
| "pop_clear cs t (p # ps) =
     (case write_cell cs (translate p t) False of
        Panic \<Rightarrow> Panic
      | Done cs' \<Rightarrow> pop_clear cs' t ps)"

definition pop :: "Game \<Rightarrow> (error option \<times> Game) exec" where
  "pop g =
     (if length (moves g) = 0 then Done (Some ErrEmptyGame, g)
      else (let m = moves g ! (length (moves g) - 1) in
            case pop_clear (cells g) (Translate m) (pos (Piece m)) of
              Panic \<Rightarrow> Panic
            | Done cs \<Rightarrow>
                Done (None,
                  g\<lparr>count := count g - word_of_nat (length (pos (Piece m))),
                    cells := cs,
                    moves := take (length (moves g) - 1) (moves g)\<rparr>)))"

section \<open>Parsing the starting board\<close>

text \<open>
  \<open>strings.Split(s, sep)\<close> for a one-byte separator: the pieces of \<open>s\<close> between the
  separators, a single empty piece for the empty string.
\<close>

fun Split :: "string \<Rightarrow> char \<Rightarrow> string list" where
  "Split [] sep = [[]]"
| "Split (c # cs) sep =
     (if c = sep then [] # Split cs sep
      else (case Split cs sep of
              [] \<Rightarrow> [[c]]
            | r # rs \<Rightarrow> (c # r) # rs))"

text \<open>\<open>new(Game)\<close>: the zero value.\<close>

definition new_Game :: Game where
  "new_Game = \<lparr>moves = [], cells = replicate DimX (replicate DimY False), count = 0\<rparr>"

text \<open>
  The inner loop of \<open>parseBoard\<close> over one row, from byte index \<open>y\<close> on. A string is its
  bytes; the loop ranges over runes, and the rune \<open>x\<close> is found exactly at the byte
  indices that hold the byte \<open>x\<close>. The caller has checked \<open>len(rows) = DimX\<close> and
  \<open>len(row) = DimY\<close>, which keeps both indices in range.
\<close>

fun parse_row :: "nat \<Rightarrow> nat \<Rightarrow> string \<Rightarrow> Game \<Rightarrow> Game" where
  "parse_row x y [] g = g"
| "parse_row x y (c # cs) g =
     parse_row x (Suc y) cs
       (if c = CHR ''x''
        then g\<lparr>cells := (cells g)[x := (cells g ! x)[y := True]], count := count g + 1\<rparr>
        else g)"

fun parse_rows :: "nat \<Rightarrow> string list \<Rightarrow> Game \<Rightarrow> error + Game" where
  "parse_rows x [] g = Inr g"
| "parse_rows x (row # rows) g =
     (if length row \<noteq> DimY then Inl ErrRowLength
      else parse_rows (Suc x) rows (parse_row x 0 row g))"

definition parseBoard :: "string \<Rightarrow> error + Game" where
  "parseBoard b =
     (let rows = Split b (CHR '','') in
      if length rows \<noteq> DimX then Inl ErrRows
      else parse_rows 0 rows new_Game)"

section \<open>The search\<close>

text \<open>
  The three nested loops of \<open>solve\<close> and \<open>solveP\<close> (\<open>x\<close>, then \<open>y\<close>, then the orientations
  of the last pool entry) visit these triples in this order.
\<close>

definition candidates :: "Piece list \<Rightarrow> (nat \<times> nat \<times> Piece) list" where
  "candidates vs =
     concat (map (\<lambda>x. concat (map (\<lambda>y. map (\<lambda>piece. (x, y, piece)) vs) [0..<DimY])) [0..<DimX])"

text \<open>
  \<open>solve\<close> sends every solution on the channel \<open>ch\<close>; the model threads the sequence of
  values sent so far. \<open>solve_try\<close> is the loop nest over the remaining candidates, for
  the pool \<open>rest = ps[:len(ps)-1]\<close>.
\<close>

function solve :: "Piece list list \<Rightarrow> Game \<Rightarrow> Move list list \<Rightarrow>
    (error option \<times> Game \<times> Move list list) exec"
  and solve_try :: "Piece list list \<Rightarrow> (nat \<times> nat \<times> Piece) list \<Rightarrow> Game \<Rightarrow> Move list list \<Rightarrow>
    (error option \<times> Game \<times> Move list list) exec" where
  "solve ps g ch =
     (if length ps = 0
      then (if count g \<noteq> word_of_nat (DimX * DimY) then Done (Some ErrNotFull, g, ch)
            else Done (None, g, ch @ [moves g]))
      else solve_try (take (length ps - 1) ps) (candidates (ps ! (length ps - 1))) g ch)"
| "solve_try rest [] g ch = Done (None, g, ch)"
| "solve_try rest (c # cs) g ch =
     (case add g (snd (snd c)) (word_of_nat (fst c), word_of_nat (fst (snd c))) of
        Panic \<Rightarrow> Panic
      | Done r \<Rightarrow>
          (case snd (fst r) of
             Some err \<Rightarrow> Done (Some err, snd r, ch)
           | None \<Rightarrow>
               if \<not> fst (fst r) then solve_try rest cs (snd r) ch
               else (case solve rest (snd r) ch of
                       Panic \<Rightarrow> Panic
                     | Done s \<Rightarrow>
                         (case fst s of
                            Some err \<Rightarrow> Done (Some err, snd s)
                          | None \<Rightarrow>
                              (case pop (fst (snd s)) of
                                 Panic \<Rightarrow> Panic
                               | Done q \<Rightarrow>
                                   (case fst q of
                                      Some err \<Rightarrow> Done (Some err, snd q, snd (snd s))
                                    | None \<Rightarrow> solve_try rest cs (snd q) (snd (snd s))))))))"
  by pat_completeness auto
termination
  by (relation "inv_image (less_than <*lex*> less_than)
        (\<lambda>v. case v of
           Inl (ps, g, ch) \<Rightarrow> (2 * length ps, 0)
         | Inr (rest, cs, g, ch) \<Rightarrow> (2 * length rest + 1, length cs))")
    (auto simp: neq_Nil_conv)

text \<open>
  \<open>solveP\<close> returns a receive-only channel. A nil channel is \<open>NilChan\<close>. Otherwise the
  channel is fed by one goroutine per candidate and closed when all of them are done:
  \<open>Chan bs\<close> lists, per candidate, what its goroutine sends (\<open>Panic\<close> when it panics, on a
  run-time panic or on an error of \<open>add\<close> or \<open>solve\<close>).
\<close>

datatype 'a chan = NilChan | Chan 'a

definition branch :: "Game \<Rightarrow> Piece list list \<Rightarrow> nat \<times> nat \<times> Piece \<Rightarrow> Move list list exec" where
  "branch g rest c =
     (let g2 = \<lparr>moves = [], cells = cells g, count = count g\<rparr> in
      case add g2 (snd (snd c)) (word_of_nat (fst c), word_of_nat (fst (snd c))) of
        Panic \<Rightarrow> Panic
      | Done r \<Rightarrow>
          (case snd (fst r) of
             Some err \<Rightarrow> Panic
           | None \<Rightarrow>
               if \<not> fst (fst r) then Done []
               else (case solve rest (snd r) [] of
                       Panic \<Rightarrow> Panic
                     | Done s \<Rightarrow>
                         (case fst s of
                            Some err \<Rightarrow> Panic
                          | None \<Rightarrow> Done (snd (snd s))))))"

definition solveP :: "Game \<Rightarrow> Piece list list \<Rightarrow> Move list list exec list chan" where
  "solveP g ps =
     (if length ps = 0 then NilChan
      else Chan (map (branch g (take (length ps - 1) ps))
                   (candidates (ps ! (length ps - 1)))))"

definition precompute :: "Piece list \<Rightarrow> Piece list list" where
  "precompute ps = map allVersions ps"

section \<open>Reading the board as a set of occupied cells\<close>

text \<open>The row and column a position indexes, and the set of cells that hold \<open>true\<close>.\<close>

definition idx :: "Pos \<Rightarrow> nat \<times> nat" where
  "idx p = (unat (fst p), unat (snd p))"

definition occ :: "Cells \<Rightarrow> (nat \<times> nat) set" where
  "occ cs = {(x, y). x < DimX \<and> y < DimY \<and> cs ! x ! y}"

text \<open>The number of \<open>true\<close> cells of the grid.\<close>

definition count_true :: "Cells \<Rightarrow> nat" where
  "count_true cs = length (filter (\<lambda>b. b) (concat cs))"

text \<open>The game after a placement that marks the grid as \<open>cs\<close>.\<close>

definition placed :: "Game \<Rightarrow> Piece \<Rightarrow> Pos \<Rightarrow> Cells \<Rightarrow> Game" where
  "placed g piece a cs =
     g\<lparr>moves := moves g @ [\<lparr>Piece = piece, Translate = a\<rparr>],
       count := count g + word_of_nat (length (pos piece)),
       cells := cs\<rparr>"

section \<open>Sessions\<close>

text \<open>
  The sessions the search can be in: those reached from a parsed starting board \<open>g0\<close> by
  placements of orientations of catalog pieces that \<open>add\<close> accepts, and by \<open>pop\<close>s that
  succeed.
\<close>

inductive reachable :: "Game \<Rightarrow> Game \<Rightarrow> bool" for g0 :: Game where
  start: "parseBoard b = Inr g0 \<Longrightarrow> reachable g0 g0"
| by_add: "reachable g0 g \<Longrightarrow> p \<in> set pieces \<Longrightarrow> v \<in> set (allVersions p) \<Longrightarrow>
     add g v a = Done ((True, None), g') \<Longrightarrow> reachable g0 g'"
| by_pop: "reachable g0 g \<Longrightarrow> pop g = Done (None, g') \<Longrightarrow> reachable g0 g'"

text \<open>The cells the parser has passed when it stands at row \<open>x\<close>, column \<open>y\<close>.\<close>

definition visited :: "nat \<Rightarrow> nat \<Rightarrow> (nat \<times> nat) set" where
  "visited x y = {(a, b). a < x \<or> (a = x \<and> b < y)}"

definition parsing :: "nat \<Rightarrow> nat \<Rightarrow> Game \<Rightarrow> bool" where
  "parsing x y g \<longleftrightarrow>
     wf_cells (cells g) \<and> moves g = [] \<and> occ (cells g) \<subseteq> visited x y \<and>
     count g = word_of_nat (card (occ (cells g)))"

text \<open>All cells of the moves on the stack, bottom move first.\<close>

definition stack_cells :: "Game \<Rightarrow> Pos list" where
  "stack_cells g = concat (map image (moves g))"

text \<open>
  What holds of every session over the starting board \<open>g0\<close>: the cells of the stacked
  moves are pairwise different, on the board and free in \<open>g0\<close>; the grid is the one of
  \<open>g0\<close> with these cells marked; the count is the one of \<open>g0\<close> plus their number.
\<close>

definition session_inv :: "Game \<Rightarrow> Game \<Rightarrow> bool" where
  "session_inv g0 g \<longleftrightarrow>
     wf_cells (cells g0) \<and> wf_cells (cells g) \<and>
     count g0 = word_of_nat (card (occ (cells g0))) \<and>
     distinct (stack_cells g) \<and>
     (\<forall>q\<in>set (stack_cells g). \<not> off_board q) \<and>
     idx ` set (stack_cells g) \<inter> occ (cells g0) = {} \<and>
     occ (cells g) = occ (cells g0) \<union> idx ` set (stack_cells g) \<and>
     count g = count g0 + word_of_nat (length (stack_cells g))"

section \<open>The rotations, as the specification names them\<close>

text \<open>The identity and the three quarter-turns.\<close>

definition spec_rotations :: "Matrix list" where
  "spec_rotations = [Identity, Rot90, Mult Rot90 Rot90, Mult (Mult Rot90 Rot90) Rot90]"

section \<open>Boards, games and pieces of the examples\<close>

text \<open>The default of the \<open>board\<close> flag, and a board with no occupied cell.\<close>

definition default_board :: string where
  "default_board = ''xxxxxxxxxxx,xxxxxxxxxxx,xxxxxxxxxxx,xxxxxxxxxxx,xxxxxxxxxxx''"

definition free_board :: string where
  "free_board = ''00000000000,00000000000,00000000000,00000000000,00000000000''"

definition full_Game :: Game where
  "full_Game = \<lparr>moves = [], cells = replicate DimX (replicate DimY True), count = 55\<rparr>"

definition turquoise :: Piece where
  "turquoise = \<lparr>name = ''turquoise'', pos = [(0, 0), (0, 1), (1, 0)], sym = False\<rparr>"

definition turquoise_Game :: Game where
  "turquoise_Game =
     \<lparr>moves = [\<lparr>Piece = turquoise, Translate = (0, 0)\<rparr>],
      cells = [[True, True, False, False, False, False, False, False, False, False, False],
               [True, False, False, False, False, False, False, False, False, False, False],
               replicate DimY False, replicate DimY False, replicate DimY False],
      count = 3\<rparr>"

text \<open>A piece of seven cells in a row; the catalog has none this long.\<close>

definition long_piece :: Piece where
  "long_piece = \<lparr>name = ''long'',
           pos = [(0, 0), (0, 1), (0, 2), (0, 3), (0, 4), (0, 5), (0, 20)], sym = False\<rparr>"

section \<open>Auxiliary facts\<close>

subsection \<open>Indices on the board\<close>

lemma idx_inj: "idx p = idx q \<longleftrightarrow> p = q"
  by (cases p; cases q) (simp add: idx_def word_unat_eq_iff)

lemma sint_nonneg_unat:
  fixes w :: "'a::len word"
  assumes "0 \<le> sint w"
  shows "unat w = nat (sint w)"
proof -
  have "sint w < 2 ^ LENGTH('a)"
    by (rule less_le_trans [OF sint_lt]) simp
  with assms have "take_bit LENGTH('a) (sint w) = sint w"
    by (simp add: take_bit_int_eq_self)
  then have "uint w = sint w"
    by (simp add: uint_sint)
  then show ?thesis
    by (simp only: unat_eq_nat_uint)
qed

lemma index_ok_DimX: "index_ok i DimX \<Longrightarrow> unat i < DimX"
proof -
  assume "index_ok i DimX"
  then have "0 \<le> sint i" "sint i < 5"
    by (simp_all add: index_ok_def DimX_def word_sle_eq word_sless_alt)
  with sint_nonneg_unat [of i] show ?thesis
    by (simp add: DimX_def)
qed

lemma index_ok_DimY: "index_ok i DimY \<Longrightarrow> unat i < DimY"
proof -
  assume "index_ok i DimY"
  then have "0 \<le> sint i" "sint i < 11"
    by (simp_all add: index_ok_def DimY_def word_sle_eq word_sless_alt)
  with sint_nonneg_unat [of i] show ?thesis
    by (simp add: DimY_def)
qed

lemma off_board_iff: "off_board p \<longleftrightarrow> \<not> (index_ok (fst p) DimX \<and> index_ok (snd p) DimY)"
  by (auto simp: off_board_def index_ok_def word_sle_eq word_sless_alt)

lemma on_board_idx:
  "\<not> off_board p \<Longrightarrow> fst (idx p) < DimX \<and> snd (idx p) < DimY"
  by (simp add: off_board_iff idx_def index_ok_DimX index_ok_DimY)

lemma read_cell_on: "\<not> off_board p \<Longrightarrow> read_cell cs p = Done (idx p \<in> occ cs)"
  using on_board_idx [of p]
  by (auto simp: read_cell_def off_board_iff occ_def idx_def)

subsection \<open>The grid as a set of cells\<close>

lemma wf_cells_nth: "wf_cells cs \<Longrightarrow> x < DimX \<Longrightarrow> length (cs ! x) = DimY"
  by (simp add: wf_cells_def list_all_length)

lemma wf_cells_eqI:
  assumes "wf_cells a" "wf_cells b" "occ a = occ b"
  shows "a = b"
proof (rule nth_equalityI)
  show "length a = length b" using assms by (simp add: wf_cells_def)
next
  fix x assume x: "x < length a"
  then have xd: "x < DimX" using assms by (simp add: wf_cells_def)
  show "a ! x = b ! x"
  proof (rule nth_equalityI)
    show "length (a ! x) = length (b ! x)"
      using assms xd by (simp add: wf_cells_nth)
  next
    fix y assume "y < length (a ! x)"
    then have yd: "y < DimY" using assms xd by (simp add: wf_cells_nth)
    have "(x, y) \<in> occ a \<longleftrightarrow> (x, y) \<in> occ b" using assms by simp
    then show "a ! x ! y = b ! x ! y" using xd yd by (simp add: occ_def)
  qed
qed

lemma update_nth2:
  assumes "wf_cells cs" "x < DimX" "y < DimY" "a < DimX" "b < DimY"
  shows "cs[x := (cs ! x)[y := v]] ! a ! b = (if a = x \<and> b = y then v else cs ! a ! b)"
proof (cases "a = x")
  case True
  have "length cs = DimX" "length (cs ! x) = DimY"
    using assms by (simp_all add: wf_cells_def list_all_length)
  with True assms show ?thesis by (simp add: nth_list_update)
next
  case False
  have "length cs = DimX" using assms by (simp add: wf_cells_def)
  with False assms show ?thesis by simp
qed

lemma write_cell_Done:
  assumes "write_cell cs p v = Done cs'" "wf_cells cs"
  shows "wf_cells cs' \<and> \<not> off_board p \<and>
         occ cs' = (if v then insert (idx p) (occ cs) else occ cs - {idx p})"
proof -
  from assms(1) have ok: "index_ok (fst p) DimX" "index_ok (snd p) DimY"
    and cs': "cs' = cs[unat (fst p) := (cs ! unat (fst p))[unat (snd p) := v]]"
    by (auto simp: write_cell_def split: if_splits)
  have x: "unat (fst p) < DimX" and y: "unat (snd p) < DimY"
    using ok by (simp_all add: index_ok_DimX index_ok_DimY)
  have wf: "wf_cells cs'"
    using assms(2) x unfolding cs' wf_cells_def list_all_length
    by (auto simp: nth_list_update)
  have "occ cs' = (if v then insert (idx p) (occ cs) else occ cs - {idx p})"
    using x y unfolding cs' occ_def idx_def
    by (auto simp: update_nth2 [OF assms(2) x y] split: if_splits)
  with wf ok show ?thesis by (simp add: off_board_iff)
qed

lemma write_cell_on:
  "\<not> off_board p \<Longrightarrow> \<exists>cs'. write_cell cs p v = Done cs'"
  by (simp add: write_cell_def off_board_iff)

subsection \<open>The loops of add and pop\<close>

lemma add_scan_Some:
  "add_scan cs a i ps img = Done (Some img') \<Longrightarrow> i \<le> length img \<Longrightarrow>
     i + length ps \<le> length img \<and> length img' = length img \<and>
     (\<forall>k<length ps. img' ! (i + k) = translate (ps ! k) a) \<and>
     (\<forall>k<i. img' ! k = img ! k) \<and>
     (\<forall>p\<in>set ps. \<not> off_board (translate p a) \<and> idx (translate p a) \<notin> occ cs)"
proof (induction ps arbitrary: i img)
  case Nil
  then show ?case by simp
next
  case (Cons p ps)
  let ?pi = "translate p a"
  from Cons.prems(1) have on: "\<not> off_board ?pi"
    by (auto simp: Let_def split: if_splits)
  with Cons.prems(1) have free: "idx ?pi \<notin> occ cs" and i: "i < length img"
    and rec: "add_scan cs a (Suc i) ps (img[i := ?pi]) = Done (Some img')"
    by (auto simp: Let_def read_cell_on split: if_splits)
  from i have "Suc i \<le> length (img[i := ?pi])" by simp
  from Cons.IH [OF rec this]
  have len: "Suc i + length ps \<le> length img" "length img' = length img"
    and later: "\<forall>k<length ps. img' ! (Suc i + k) = translate (ps ! k) a"
    and earlier: "\<forall>k<Suc i. img' ! k = img[i := ?pi] ! k"
    and rest: "\<forall>q\<in>set ps. \<not> off_board (translate q a) \<and> idx (translate q a) \<notin> occ cs"
    by simp_all
  from earlier i have here: "img' ! i = ?pi" by simp
  have "\<forall>k<length (p # ps). img' ! (i + k) = translate ((p # ps) ! k) a"
  proof (intro allI impI)
    fix k assume "k < length (p # ps)"
    then show "img' ! (i + k) = translate ((p # ps) ! k) a"
      using here later by (cases k) simp_all
  qed
  moreover have "\<forall>k<i. img' ! k = img ! k"
    using earlier by (auto simp: nth_list_update)
  ultimately show ?case
    using len on free rest by simp
qed

lemma add_scan_no_panic:
  "i + length ps \<le> length img \<Longrightarrow> add_scan cs a i ps img \<noteq> Panic"
proof (induction ps arbitrary: i img)
  case Nil
  then show ?case by simp
next
  case (Cons p ps)
  then have "add_scan cs a (Suc i) ps (img[i := translate p a]) \<noteq> Panic"
    by simp
  with Cons.prems show ?case
    by (simp add: Let_def read_cell_on)
qed

lemma add_scan_reject:
  "\<exists>p\<in>set ps. off_board (translate p a) \<or> idx (translate p a) \<in> occ cs \<Longrightarrow>
   i + length ps \<le> length img \<Longrightarrow> add_scan cs a i ps img = Done None"
proof (induction ps arbitrary: i img)
  case Nil
  then show ?case by simp
next
  case (Cons p ps)
  show ?case
  proof (cases "off_board (translate p a) \<or> idx (translate p a) \<in> occ cs")
    case True
    then show ?thesis by (auto simp: Let_def read_cell_on)
  next
    case False
    with Cons.prems(1)
    have "\<exists>q\<in>set ps. off_board (translate q a) \<or> idx (translate q a) \<in> occ cs"
      by auto
    moreover have "Suc i + length ps \<le> length (img[i := translate p a])"
      using Cons.prems(2) by simp
    ultimately have "add_scan cs a (Suc i) ps (img[i := translate p a]) = Done None"
      by (rule Cons.IH)
    with False Cons.prems(2) show ?thesis
      by (simp add: Let_def read_cell_on)
  qed
qed

lemma add_mark_Done:
  "add_mark cs img js = Done cs' \<Longrightarrow> wf_cells cs \<Longrightarrow>
   wf_cells cs' \<and> occ cs' = occ cs \<union> idx ` (\<lambda>i. img ! i) ` set js"
proof (induction js arbitrary: cs)
  case Nil
  then show ?case by simp
next
  case (Cons j js)
  from Cons.prems(1) obtain c1 where w: "write_cell cs (img ! j) True = Done c1"
    and r: "add_mark c1 img js = Done cs'"
    by (auto split: exec.splits if_splits)
  from write_cell_Done [OF w Cons.prems(2)]
  have "wf_cells c1" "occ c1 = insert (idx (img ! j)) (occ cs)" by simp_all
  with Cons.IH [OF r] show ?case by auto
qed

lemma add_mark_on:
  "\<forall>j\<in>set js. j < length img \<and> \<not> off_board (img ! j) \<Longrightarrow>
   \<exists>cs'. add_mark cs img js = Done cs'"
proof (induction js arbitrary: cs)
  case Nil
  then show ?case by simp
next
  case (Cons j js)
  then obtain c1 where w: "write_cell cs (img ! j) True = Done c1"
    using write_cell_on [of "img ! j" cs True] by auto
  with Cons show ?case by simp
qed

lemma pop_clear_Done:
  "pop_clear cs t ps = Done cs' \<Longrightarrow> wf_cells cs \<Longrightarrow>
   wf_cells cs' \<and> occ cs' = occ cs - idx ` (\<lambda>p. translate p t) ` set ps"
proof (induction ps arbitrary: cs)
  case Nil
  then show ?case by simp
next
  case (Cons p ps)
  from Cons.prems(1) obtain c1 where w: "write_cell cs (translate p t) False = Done c1"
    and r: "pop_clear c1 t ps = Done cs'"
    by (auto split: exec.splits)
  from write_cell_Done [OF w Cons.prems(2)]
  have "wf_cells c1" "occ c1 = occ cs - {idx (translate p t)}" by simp_all
  with Cons.IH [OF r] show ?case by auto
qed

lemma pop_clear_on:
  "\<forall>p\<in>set ps. \<not> off_board (translate p t) \<Longrightarrow> \<exists>cs'. pop_clear cs t ps = Done cs'"
proof (induction ps arbitrary: cs)
  case Nil
  then show ?case by simp
next
  case (Cons p ps)
  then obtain c1 where w: "write_cell cs (translate p t) False = Done c1"
    using write_cell_on [of "translate p t" cs False] by auto
  with Cons show ?case by simp
qed

subsection \<open>What add and pop return\<close>

lemma add_placed:
  assumes "add g piece a = Done ((True, e), g')" and wf: "wf_cells (cells g)"
  shows "e = None \<and> length (pos piece) \<le> 5 \<and>
         (\<forall>p\<in>set (pos piece). \<not> off_board (translate p a) \<and> idx (translate p a) \<notin> occ (cells g)) \<and>
         (\<exists>cs. wf_cells cs \<and>
               occ cs = occ (cells g) \<union> idx ` (\<lambda>p. translate p a) ` set (pos piece) \<and>
               g' = placed g piece a cs)"
proof -
  let ?ps = "pos piece"
  let ?n = "length ?ps"
  from assms(1) obtain img cs where
    scan: "add_scan (cells g) a 0 ?ps (replicate 5 (0, 0)) = Done (Some img)"
    and mark: "add_mark (cells g) img [0..<?n] = Done cs"
    and e: "e = None" and g': "g' = placed g piece a cs"
    by (auto simp: add_def placed_def split: if_splits exec.splits option.splits)
  from add_scan_Some [OF scan]
  have n: "?n \<le> 5" and at: "\<forall>k<?n. img ! k = translate (?ps ! k) a"
    and free: "\<forall>p\<in>set ?ps. \<not> off_board (translate p a) \<and> idx (translate p a) \<notin> occ (cells g)"
    by simp_all
  have "(\<lambda>i. img ! i) ` set [0..<?n] = (\<lambda>p. translate p a) ` set ?ps"
  proof -
    have "(\<lambda>i. img ! i) ` {0..<?n} = (\<lambda>i. translate (?ps ! i) a) ` {0..<?n}"
      using at by (intro image_cong) simp_all
    also have "\<dots> = (\<lambda>p. translate p a) ` ((\<lambda>i. ?ps ! i) ` {0..<?n})"
      by (simp add: image_image)
    also have "(\<lambda>i. ?ps ! i) ` {0..<?n} = set ?ps"
      by (simp add: nth_image [of ?n ?ps, simplified] set_conv_nth image_def)
    finally show ?thesis by simp
  qed
  with add_mark_Done [OF mark wf]
  have "wf_cells cs" "occ cs = occ (cells g) \<union> idx ` (\<lambda>p. translate p a) ` set ?ps"
    by simp_all
  with e n free g' show ?thesis by blast
qed

lemma read_cell_True: "read_cell cs q = Done True \<longleftrightarrow> \<not> off_board q \<and> idx q \<in> occ cs"
proof (cases "off_board q")
  case True
  then show ?thesis by (auto simp: read_cell_def off_board_iff)
next
  case False
  then show ?thesis by (simp add: read_cell_on)
qed

lemma add_no_panic:
  assumes "length (pos piece) \<le> 5"
  shows "add g piece a \<noteq> Panic"
proof (cases "add_scan (cells g) a 0 (pos piece) (replicate 5 (0, 0))")
  case Panic
  with add_scan_no_panic [of 0 "pos piece" "replicate 5 (0, 0)" "cells g" a] assms
  show ?thesis by simp
next
  case (Done r)
  show ?thesis
  proof (cases r)
    case None
    with Done show ?thesis by (simp add: add_def)
  next
    case (Some img)
    from add_scan_Some [OF Done [unfolded Some]]
    have "length img = 5" "\<forall>k<length (pos piece). img ! k = translate (pos piece ! k) a"
      "\<forall>p\<in>set (pos piece). \<not> off_board (translate p a)"
      by simp_all
    with assms have "\<forall>j\<in>set [0..<length (pos piece)]. j < length img \<and> \<not> off_board (img ! j)"
      by simp
    from add_mark_on [OF this] obtain cs
      where "add_mark (cells g) img [0..<length (pos piece)] = Done cs" ..
    with Done Some show ?thesis by (simp add: add_def)
  qed
qed

lemma add_skip:
  assumes "\<not> word_of_nat (DimX * DimY) <s count g + word_of_nat (length (pos piece))"
    and "length (pos piece) \<le> 5"
    and "\<exists>p\<in>set (pos piece). off_board (translate p a) \<or> read_cell (cells g) (translate p a) = Done True"
  shows "add g piece a = Done ((False, None), g)"
proof -
  from assms(3)
  have "\<exists>p\<in>set (pos piece). off_board (translate p a) \<or> idx (translate p a) \<in> occ (cells g)"
    by (auto simp: read_cell_True)
  then have "add_scan (cells g) a 0 (pos piece) (replicate 5 (0, 0)) = Done None"
    using assms(2) by (intro add_scan_reject) simp_all
  with assms(1) show ?thesis by (simp add: add_def)
qed

lemma pop_placed:
  assumes wf: "wf_cells (cells g)" and cs: "wf_cells cs"
    and on: "\<forall>p\<in>set (pos piece). \<not> off_board (translate p a)"
    and occ: "occ cs - idx ` (\<lambda>p. translate p a) ` set (pos piece) = occ (cells g)"
  shows "pop (placed g piece a cs) = Done (None, g)"
proof -
  from pop_clear_on [OF on] obtain c2 where c2: "pop_clear cs a (pos piece) = Done c2" ..
  from pop_clear_Done [OF c2 cs] occ have "wf_cells c2" "occ c2 = occ (cells g)"
    by simp_all
  with wf have "c2 = cells g" by (intro wf_cells_eqI)
  with c2 show ?thesis
    by (simp add: pop_def placed_def)
qed

subsection \<open>Counts\<close>

lemma sint_add_of_nat:
  fixes a :: goint
  assumes "sint a + int n < 2 ^ 63"
  shows "sint (a + word_of_nat n) = sint a + int n"
proof -
  have "a + word_of_nat n = word_of_int (sint a + int n)"
    by simp
  then have "sint (a + word_of_nat n) = signed_take_bit 63 (sint a + int n)"
    by (simp only: sint_sbintrunc') simp
  moreover have "- (2 ^ 63) \<le> sint a + int n"
    using sint_ge [of a] by simp
  ultimately show ?thesis
    using assms by (simp add: signed_take_bit_int_eq_self)
qed

lemma sint_small:
  fixes n :: nat
  assumes "n \<le> 55"
  shows "sint (word_of_nat n :: goint) = int n"
proof -
  have "sint (0 + word_of_nat n :: goint) = sint (0 :: goint) + int n"
    using assms by (intro sint_add_of_nat) simp
  then show ?thesis by simp
qed

lemma occ_subset: "occ cs \<subseteq> {..<DimX} \<times> {..<DimY}"
  by (auto simp: occ_def)

lemma finite_occ: "finite (occ cs)"
  by (rule finite_subset [OF occ_subset]) simp

lemma card_occ_le: "card (occ cs) \<le> 55"
proof -
  have "card (occ cs) \<le> card ({..<DimX} \<times> {..<DimY})"
    by (rule card_mono [OF _ occ_subset]) simp
  then show ?thesis by (simp add: DimX_def DimY_def)
qed

lemma occ_update:
  assumes "wf_cells cs" "x < DimX" "y < DimY"
  shows "wf_cells (cs[x := (cs ! x)[y := v]])"
    and "occ (cs[x := (cs ! x)[y := v]]) = (if v then insert (x, y) (occ cs) else occ cs - {(x, y)})"
proof -
  show "wf_cells (cs[x := (cs ! x)[y := v]])"
    using assms unfolding wf_cells_def list_all_length
    by (auto simp: nth_list_update)
  show "occ (cs[x := (cs ! x)[y := v]]) = (if v then insert (x, y) (occ cs) else occ cs - {(x, y)})"
    using assms(2,3) unfolding occ_def
    by (auto simp: update_nth2 [OF assms] split: if_splits)
qed

lemma count_true_card:
  assumes "wf_cells cs"
  shows "count_true cs = card (occ cs)"
proof -
  have len: "length cs = DimX" and rows: "\<And>x. x < DimX \<Longrightarrow> length (cs ! x) = DimY"
    using assms by (simp_all add: wf_cells_def list_all_length)
  have "count_true cs = sum_list (map (\<lambda>r. length (filter (\<lambda>b. b) r)) cs)"
    by (simp add: count_true_def filter_concat length_concat comp_def)
  also have "\<dots> = (\<Sum>x<DimX. length (filter (\<lambda>b. b) (cs ! x)))"
    by (simp add: sum_list_sum_nth len atLeast0LessThan)
  also have "\<dots> = (\<Sum>x<DimX. card {y. y < DimY \<and> cs ! x ! y})"
    by (rule sum.cong) (simp_all add: length_filter_conv_card rows)
  also have "\<dots> = card (SIGMA x:{..<DimX}. {y. y < DimY \<and> cs ! x ! y})"
    by (subst card_SigmaI) simp_all
  also have "(SIGMA x:{..<DimX}. {y. y < DimY \<and> cs ! x ! y}) = occ cs"
    by (auto simp: occ_def)
  finally show ?thesis .
qed

subsection \<open>The parser\<close>

lemma parse_row_parsing:
  "parsing x y g \<Longrightarrow> x < DimX \<Longrightarrow> y + length row \<le> DimY \<Longrightarrow>
   parsing x (y + length row) (parse_row x y row g)"
proof (induction row arbitrary: y g)
  case Nil
  then show ?case by simp
next
  case (Cons c row)
  let ?g = "if c = CHR ''x''
        then g\<lparr>cells := (cells g)[x := (cells g ! x)[y := True]], count := count g + 1\<rparr>
        else g"
  have y: "y < DimY" using Cons.prems(3) by simp
  have wf: "wf_cells (cells g)" using Cons.prems(1) by (simp add: parsing_def)
  have "parsing x (Suc y) ?g"
  proof (cases "c = CHR ''x''")
    case True
    have new: "(x, y) \<notin> occ (cells g)"
      using Cons.prems(1) by (auto simp: parsing_def visited_def)
    have "card (insert (x, y) (occ (cells g))) = Suc (card (occ (cells g)))"
      using new by (simp add: finite_occ)
    moreover have "insert (x, y) (occ (cells g)) \<subseteq> visited x (Suc y)"
      using Cons.prems(1) by (auto simp: parsing_def visited_def)
    ultimately show ?thesis
      using True Cons.prems(1) occ_update [OF wf Cons.prems(2) y, of True]
      by (simp add: parsing_def)
  next
    case False
    have "visited x y \<subseteq> visited x (Suc y)" by (auto simp: visited_def)
    with False Cons.prems(1) show ?thesis by (auto simp: parsing_def)
  qed
  from Cons.IH [OF this Cons.prems(2)] Cons.prems(3) show ?case by simp
qed

lemma parse_rows_parsing:
  "parse_rows x rows g = Inr g' \<Longrightarrow> parsing x 0 g \<Longrightarrow> x + length rows \<le> DimX \<Longrightarrow>
   parsing (x + length rows) 0 g'"
proof (induction rows arbitrary: x g)
  case Nil
  then show ?case by simp
next
  case (Cons row rows)
  from Cons.prems(1) have len: "length row = DimY"
    and rec: "parse_rows (Suc x) rows (parse_row x 0 row g) = Inr g'"
    by (auto split: if_splits)
  have x: "x < DimX" using Cons.prems(3) by simp
  from parse_row_parsing [OF Cons.prems(2) x, of row] len
  have "parsing x DimY (parse_row x 0 row g)" by simp
  moreover have "occ (cells (parse_row x 0 row g)) \<inter> visited x DimY \<subseteq> visited (Suc x) 0"
    by (auto simp: visited_def)
  ultimately have "parsing (Suc x) 0 (parse_row x 0 row g)"
    by (auto simp: parsing_def)
  from Cons.IH [OF rec this] Cons.prems(3) show ?case by simp
qed

lemma parseBoard_parsing:
  assumes "parseBoard b = Inr g0"
  shows "wf_cells (cells g0) \<and> moves g0 = [] \<and> count g0 = word_of_nat (card (occ (cells g0)))"
proof -
  let ?rows = "Split b (CHR '','')"
  from assms have len: "length ?rows = DimX" and rows: "parse_rows 0 ?rows new_Game = Inr g0"
    by (auto simp: parseBoard_def Let_def split: if_splits)
  have "wf_cells (cells new_Game)"
    by (simp add: new_Game_def wf_cells_def list_all_length)
  moreover have "occ (cells new_Game) = {}"
    by (auto simp: new_Game_def occ_def)
  ultimately have "parsing 0 0 new_Game"
    by (simp add: parsing_def new_Game_def)
  from parse_rows_parsing [OF rows this] len show ?thesis
    by (simp add: parsing_def)
qed

subsection \<open>The invariant of a session\<close>

lemma translate_inj: "translate p a = translate q a \<longleftrightarrow> p = q"
  by (cases p; cases q) (simp add: translate_def)

lemma distinct_image:
  "distinct (pos (Piece m)) \<Longrightarrow> distinct (image m)"
  by (simp add: image_def distinct_map inj_on_def translate_inj)

lemma catalog_distinct:
  "list_all (\<lambda>p. list_all (\<lambda>v. distinct (pos v)) (allVersions p)) pieces"
  by code_simp

lemma allVersions_distinct:
  "p \<in> set pieces \<Longrightarrow> v \<in> set (allVersions p) \<Longrightarrow> distinct (pos v)"
  using catalog_distinct by (simp add: list_all_iff)

lemma session_inv_start:
  "parseBoard b = Inr g0 \<Longrightarrow> session_inv g0 g0"
  using parseBoard_parsing [of b g0] by (simp add: session_inv_def stack_cells_def)

lemma session_inv_add:
  assumes inv: "session_inv g0 g" and v: "distinct (pos v)"
    and add: "add g v a = Done ((True, None), g')"
  shows "session_inv g0 g'"
proof -
  let ?m = "\<lparr>Piece = v, Translate = a\<rparr>"
  from inv have wf: "wf_cells (cells g)" by (simp add: session_inv_def)
  from add_placed [OF add wf] obtain cs where
    free: "\<forall>p\<in>set (pos v). \<not> off_board (translate p a) \<and> idx (translate p a) \<notin> occ (cells g)"
    and cs: "wf_cells cs" "occ cs = occ (cells g) \<union> idx ` (\<lambda>p. translate p a) ` set (pos v)"
    and g': "g' = placed g v a cs"
    by blast
  have im: "set (image ?m) = (\<lambda>p. translate p a) ` set (pos v)" "length (image ?m) = length (pos v)"
    by (simp_all add: image_def)
  have st: "stack_cells g' = stack_cells g @ image ?m"
    by (simp add: g' placed_def stack_cells_def)
  have new: "idx ` set (image ?m) \<inter> occ (cells g) = {}"
    using free by (auto simp: im)
  have occg: "occ (cells g) = occ (cells g0) \<union> idx ` set (stack_cells g)"
    using inv by (simp add: session_inv_def)
  have d: "distinct (stack_cells g')"
  proof -
    have "set (stack_cells g) \<inter> set (image ?m) = {}"
      using new occg by auto
    moreover have "distinct (image ?m)" using v by (simp add: distinct_image)
    ultimately show ?thesis using inv by (simp add: st session_inv_def)
  qed
  have cg: "cells g' = cs" "count g' = count g + word_of_nat (length (pos v))"
    by (simp_all add: g' placed_def)
  have "\<forall>q\<in>set (stack_cells g'). \<not> off_board q"
    using inv free by (auto simp: st im session_inv_def)
  moreover have "idx ` set (stack_cells g') \<inter> occ (cells g0) = {}"
    using inv new occg by (auto simp: st session_inv_def)
  moreover have "occ (cells g') = occ (cells g0) \<union> idx ` set (stack_cells g')"
    using cs(2) occg by (simp add: cg st im image_Un Un_assoc)
  moreover have "count g' = count g0 + word_of_nat (length (stack_cells g'))"
    using inv by (simp add: cg st im session_inv_def)
  moreover have "wf_cells (cells g')" using cs(1) by (simp add: cg)
  ultimately show ?thesis
    using inv d by (simp add: session_inv_def)
qed

lemma session_inv_pop:
  assumes inv: "session_inv g0 g" and pop: "pop g = Done (None, g')"
  shows "session_inv g0 g'"
proof -
  from pop have ne: "moves g \<noteq> []"
    by (auto simp: pop_def split: if_splits)
  define m where "m = last (moves g)"
  have m: "moves g ! (length (moves g) - 1) = m"
    using ne by (simp add: m_def last_conv_nth)
  have ms: "moves g = butlast (moves g) @ [m]"
    using ne by (simp add: m_def)
  from pop ne m obtain cs where
    clear: "pop_clear (cells g) (Translate m) (pos (Piece m)) = Done cs"
    and g': "g' = g\<lparr>count := count g - word_of_nat (length (pos (Piece m))),
                    cells := cs, moves := take (length (moves g) - 1) (moves g)\<rparr>"
    by (auto simp: pop_def Let_def split: exec.splits)
  from inv have wf: "wf_cells (cells g)" by (simp add: session_inv_def)
  from pop_clear_Done [OF clear wf]
  have cs: "wf_cells cs" "occ cs = occ (cells g) - idx ` set (image m)"
    by (simp_all add: image_def)
  have st: "stack_cells g = stack_cells g' @ image m"
  proof -
    have "stack_cells g = concat (map image (butlast (moves g) @ [m]))"
      using ms by (simp add: stack_cells_def)
    then show ?thesis
      by (simp add: g' stack_cells_def butlast_conv_take)
  qed
  have d: "distinct (stack_cells g')" "set (stack_cells g') \<inter> set (image m) = {}"
    using inv by (simp_all add: session_inv_def st)
  have disj0: "idx ` set (stack_cells g) \<inter> occ (cells g0) = {}"
    and occg: "occ (cells g) = occ (cells g0) \<union> idx ` set (stack_cells g)"
    using inv by (simp_all add: session_inv_def)
  have cg: "cells g' = cs" "count g' = count g - word_of_nat (length (pos (Piece m)))"
    by (simp_all add: g')
  have "idx ` set (stack_cells g') \<inter> idx ` set (image m) = {}"
    using d(2) by (auto simp: idx_inj)
  with disj0 occg have "occ (cells g') = occ (cells g0) \<union> idx ` set (stack_cells g')"
    unfolding cg cs(2) st by auto
  moreover have "count g' = count g0 + word_of_nat (length (stack_cells g'))"
  proof -
    have "count g = count g0 + word_of_nat (length (stack_cells g'))
            + word_of_nat (length (pos (Piece m)))"
      using inv by (simp add: st session_inv_def image_def)
    then show ?thesis by (simp add: cg)
  qed
  moreover have "idx ` set (stack_cells g') \<inter> occ (cells g0) = {}"
    using disj0 by (auto simp: st)
  moreover have "\<forall>q\<in>set (stack_cells g'). \<not> off_board q"
    using inv by (simp add: st session_inv_def)
  moreover have "wf_cells (cells g')" using cs(1) by (simp add: cg)
  ultimately show ?thesis
    using inv d(1) by (simp add: session_inv_def)
qed

lemma reachable_inv: "reachable g0 g \<Longrightarrow> session_inv g0 g"
proof (induction rule: reachable.induct)
  case (start b)
  then show ?case by (rule session_inv_start)
next
  case (by_add g p v a g')
  then show ?case
    by (intro session_inv_add [of g0 g v a g'] allVersions_distinct)
next
  case (by_pop g g')
  then show ?case by (intro session_inv_pop [of g0 g g'])
qed

subsection \<open>Orientations and the catalog\<close>

lemma allVersions_eq:
  "allVersions p = map (transform p) (take (if sym p then 4 else 8) tx)"
  by (simp add: allVersions_def tx_def)

lemma tx_explicit:
  "tx = [((1, 0), (0, 1)), ((1, 0), (0, - 1)), ((0, 1), (- 1, 0)), ((0, - 1), (- 1, 0)),
         ((- 1, 0), (0, - 1)), ((0, - 1), (1, 0)), ((- 1, 0), (0, 1)), ((0, 1), (1, 0))]"
  by (simp add: tx_def Identity_def Mirror_def Rot90_def Mult_def)

lemma catalog_sizes: "list_all (\<lambda>p. length (pos p) \<le> 5) pieces"
  by (simp add: pieces_def)

section \<open>The transforms\<close>

text \<open>
  Claim C8. The list \<open>tx\<close> has eight entries. It contains \<open>Identity\<close>, which maps every
  position to itself, and the product \<open>Mult a b\<close> of any two of its entries is one of
  its entries again.
\<close>

theorem tx_identity_closed:
  "length tx = 8 \<and> Identity \<in> set tx \<and> (\<forall>p. Transform Identity p = p) \<and>
   (\<forall>a\<in>set tx. \<forall>b\<in>set tx. Mult a b \<in> set tx)"
proof (intro conjI)
  show "length tx = 8" by (simp add: tx_def)
  show "Identity \<in> set tx" by (simp add: tx_def)
  show "\<forall>p. Transform Identity p = p" by (simp add: Transform_def Identity_def)
  show "\<forall>a\<in>set tx. \<forall>b\<in>set tx. Mult a b \<in> set tx"
    unfolding tx_explicit by (simp add: Mult_def)
qed

theorem tx_identity_closed_witness:
  "Transform Identity (3, - 7) = (3, - 7) \<and>
   Rot90 \<in> set tx \<and> Mult Rot90 Mirror \<in> set tx \<and>
   Mult Rot90 (Mult Rot90 Mirror) = Mult (Mult Rot90 Rot90) Mirror \<and>
   Mult Rot90 (Mult Rot90 Mirror) \<in> set tx"
proof -
  have a: "Rot90 \<in> set tx" and b: "Mult Rot90 Mirror \<in> set tx"
    by (simp_all add: tx_def)
  have "Mult Rot90 (Mult Rot90 Mirror) = Mult (Mult Rot90 Rot90) Mirror"
    by (simp add: Mult_def Rot90_def Mirror_def)
  with tx_identity_closed a b show ?thesis by blast
qed

section \<open>Orientations\<close>

text \<open>
  Claim C4. \<open>allVersions\<close> returns four orientations for a piece whose \<open>sym\<close> flag is set
  and eight for any other piece: one per transform, in the order of \<open>tx\<close>, with nothing
  filtered out.
\<close>

theorem allVersions_length:
  "length (allVersions p) = (if sym p then 4 else 8) \<and>
   allVersions p = map (transform p) (take (length (allVersions p)) tx)"
  by (simp add: allVersions_eq tx_def)

theorem allVersions_length_witness:
  "\<not> sym (pieces ! 0) \<and> length (allVersions (pieces ! 0)) = 8 \<and>
   sym (pieces ! 1) \<and> length (allVersions (pieces ! 1)) = 4"
proof -
  have "\<not> sym (pieces ! 0)" "sym (pieces ! 1)"
    by (simp_all add: pieces_def)
  with allVersions_length [of "pieces ! 0"] allVersions_length [of "pieces ! 1"]
  show ?thesis by simp
qed

text \<open>
  Claim C3, as the code has it. For a piece whose \<open>sym\<close> flag is set, \<open>allVersions\<close>
  applies exactly the first four entries of \<open>tx\<close>, in order, and leaves the last four
  out. These first four are \<open>Identity\<close>, \<open>Mirror\<close>, \<open>Rot90\<close> and \<open>Rot90\<close> after \<open>Mirror\<close>: two
  rotations and two reflections.
\<close>

theorem allVersions_sym:
  "sym p \<Longrightarrow>
   allVersions p = map (transform p) (take 4 tx) \<and>
   take 4 tx = [Identity, Mirror, Rot90, Mult Rot90 Mirror]"
  by (simp add: allVersions_eq tx_def)

theorem allVersions_sym_witness:
  "sym (pieces ! 1) \<and>
   map pos (allVersions (pieces ! 1)) =
     [[(0, 0), (1, 0), (2, 0), (1, 1)],
      [(0, 0), (1, 0), (2, 0), (1, - 1)],
      [(0, 0), (0, - 1), (0, - 2), (1, - 1)],
      [(0, 0), (0, - 1), (0, - 2), (- 1, - 1)]]"
proof -
  have s: "sym (pieces ! 1)" by (simp add: pieces_def)
  have "map pos (map (transform (pieces ! 1)) [Identity, Mirror, Rot90, Mult Rot90 Mirror]) =
     [[(0, 0), (1, 0), (2, 0), (1, 1)],
      [(0, 0), (1, 0), (2, 0), (1, - 1)],
      [(0, 0), (0, - 1), (0, - 2), (1, - 1)],
      [(0, 0), (0, - 1), (0, - 2), (- 1, - 1)]]"
    by (simp add: pieces_def transform_def Transform_def Identity_def Mirror_def Rot90_def Mult_def)
  with allVersions_sym [OF s] s show ?thesis by simp
qed

text \<open>
  The first four entries of \<open>tx\<close> are not the rotations: the entry at index 1 is \<open>Mirror\<close>,
  which is none of the identity and the three quarter-turns, and for the catalog piece
  \<open>green\<close> (flag set) the orientation at index 1 is the mirrored one, which no rotation
  of the piece yields.
\<close>

theorem first_four_not_rotations:
  "tx ! 1 = Mirror \<and> Mirror \<notin> set spec_rotations \<and>
   sym (pieces ! 1) \<and>
   allVersions (pieces ! 1) ! 1 = transform (pieces ! 1) Mirror \<and>
   transform (pieces ! 1) Mirror \<notin> set (map (transform (pieces ! 1)) spec_rotations)"
  by (simp add: allVersions_eq tx_def spec_rotations_def pieces_def transform_def Transform_def
      Identity_def Mirror_def Rot90_def Mult_def)

section \<open>Placing and undoing\<close>

text \<open>
  Claim C1. On any board, for any piece and any anchor: when \<open>add\<close> places the piece,
  the \<open>pop\<close> that follows returns no error and gives back the game as it was before the
  \<open>add\<close>: the same grid, the same count and the same move stack.
\<close>

theorem add_pop_roundtrip:
  assumes "wf_cells (cells g)" and "add g piece a = Done ((True, e), g')"
  shows "pop g' = Done (None, g)"
proof -
  from add_placed [OF assms(2,1)] obtain cs where
    free: "\<forall>p\<in>set (pos piece). \<not> off_board (translate p a) \<and> idx (translate p a) \<notin> occ (cells g)"
    and cs: "wf_cells cs" "occ cs = occ (cells g) \<union> idx ` (\<lambda>p. translate p a) ` set (pos piece)"
    and g': "g' = placed g piece a cs"
    by blast
  have "occ cs - idx ` (\<lambda>p. translate p a) ` set (pos piece) = occ (cells g)"
    using free cs(2) by auto
  with assms(1) cs(1) free show ?thesis
    unfolding g' by (intro pop_placed) simp_all
qed

theorem add_pop_roundtrip_witness:
  "wf_cells (cells new_Game) \<and>
   add new_Game (pieces ! 6) (1, 4) =
     Done ((True, None),
       \<lparr>moves = [\<lparr>Piece = pieces ! 6, Translate = (1, 4)\<rparr>],
        cells = [replicate DimY False,
                 [False, False, False, False, True, False, False, False, False, False, False],
                 [False, False, False, False, True, True, True, False, False, False, False],
                 [False, False, False, False, False, True, False, False, False, False, False],
                 replicate DimY False],
        count = 5\<rparr>) \<and>
   pop \<lparr>moves = [\<lparr>Piece = pieces ! 6, Translate = (1, 4)\<rparr>],
        cells = [replicate DimY False,
                 [False, False, False, False, True, False, False, False, False, False, False],
                 [False, False, False, False, True, True, True, False, False, False, False],
                 [False, False, False, False, False, True, False, False, False, False, False],
                 replicate DimY False],
        count = 5\<rparr> = Done (None, new_Game)"
proof -
  have wf: "wf_cells (cells new_Game)"
    by code_simp
  have placed: "add new_Game (pieces ! 6) (1, 4) =
     Done ((True, None),
       \<lparr>moves = [\<lparr>Piece = pieces ! 6, Translate = (1, 4)\<rparr>],
        cells = [replicate DimY False,
                 [False, False, False, False, True, False, False, False, False, False, False],
                 [False, False, False, False, True, True, True, False, False, False, False],
                 [False, False, False, False, False, True, False, False, False, False, False],
                 replicate DimY False],
        count = 5\<rparr>)"
    by code_simp
  from add_pop_roundtrip [OF wf placed] wf placed show ?thesis
    by (intro conjI)
qed

text \<open>
  Claim C5, as the code has it. When the budget test of \<open>add\<close> passes and the piece has
  at most five cells (as every orientation of a catalog piece has), and some translated
  cell is off the board or holds \<open>true\<close> on the board, then \<open>add\<close> returns \<open>false\<close> with
  no error and leaves the grid, the count and the move stack as they were.
\<close>

theorem add_rejects_unchanged:
  assumes "\<not> word_of_nat (DimX * DimY) <s count g + word_of_nat (length (pos piece))"
    and "length (pos piece) \<le> 5"
    and "\<exists>p\<in>set (pos piece).
           off_board (translate p a) \<or> read_cell (cells g) (translate p a) = Done True"
  shows "add g piece a = Done ((False, None), g)"
  using assms by (rule add_skip)

theorem add_rejects_unchanged_witness:
  "off_board (translate (1, 0) (4, 0)) \<and>
   read_cell (cells turquoise_Game) (translate (0, 1) (0, 0)) = Done True \<and>
   add new_Game turquoise (4, 0) = Done ((False, None), new_Game) \<and>
   add turquoise_Game turquoise (0, 0) = Done ((False, None), turquoise_Game)"
proof -
  have off: "off_board (translate (1, 0) (4, 0))"
    by code_simp
  have occupied: "read_cell (cells turquoise_Game) (translate (0, 1) (0, 0)) = Done True"
    by code_simp
  have b1: "\<not> word_of_nat (DimX * DimY) <s count new_Game + word_of_nat (length (pos turquoise))"
    by code_simp
  have b2: "\<not> word_of_nat (DimX * DimY) <s count turquoise_Game + word_of_nat (length (pos turquoise))"
    by code_simp
  have n: "length (pos turquoise) \<le> 5"
    by (simp add: turquoise_def)
  have e1: "\<exists>p\<in>set (pos turquoise).
      off_board (translate p (4, 0)) \<or> read_cell (cells new_Game) (translate p (4, 0)) = Done True"
    using off by (simp add: turquoise_def)
  have e2: "\<exists>p\<in>set (pos turquoise).
      off_board (translate p (0, 0)) \<or> read_cell (cells turquoise_Game) (translate p (0, 0)) = Done True"
    using occupied by (simp add: turquoise_def)
  from add_rejects_unchanged [OF b1 n e1] add_rejects_unchanged [OF b2 n e2] off occupied
  show ?thesis by (intro conjI)
qed

text \<open>
  Without the two conditions the rejection is not silent. On the full board the budget
  test comes first: a piece that overlaps an occupied cell gets the error, not
  \<open>false\<close> with no error. A piece of more than five cells whose first six cells are free
  and on the board overruns the buffer \<open>image\<close> before its off-board cell is looked at.
\<close>

theorem add_rejection_not_silent:
  "read_cell (cells full_Game) (translate (0, 0) (0, 0)) = Done True \<and>
   (0, 0) \<in> set (pos turquoise) \<and>
   add full_Game turquoise (0, 0) = Done ((False, Some ErrBoardFull), full_Game) \<and>
   off_board (translate (0, 20) (0, 0)) \<and>
   (0, 20) \<in> set (pos long_piece) \<and>
   add new_Game long_piece (0, 0) = Panic"
  by code_simp

text \<open>
  Claim C6. \<open>add\<close> returns an error exactly when the count plus the number of cells of
  the piece exceeds \<open>DimX * DimY\<close>, the sum and the comparison being Go's on \<open>int\<close>. The
  test comes before the board is looked at: when it fires, the result is the error
  whatever the anchor and the grid are, and the game is unchanged. Where the sum does
  not overflow, the test is the comparison of the integers themselves.
\<close>

theorem add_error_iff:
  "((\<exists>b e g'. add g piece a = Done ((b, Some e), g')) \<longleftrightarrow>
      word_of_nat (DimX * DimY) <s count g + word_of_nat (length (pos piece))) \<and>
   (word_of_nat (DimX * DimY) <s count g + word_of_nat (length (pos piece)) \<longrightarrow>
      add g piece a = Done ((False, Some ErrBoardFull), g)) \<and>
   (sint (count g) + int (length (pos piece)) < 2 ^ 63 \<longrightarrow>
      (word_of_nat (DimX * DimY) <s count g + word_of_nat (length (pos piece)) \<longleftrightarrow>
       int (DimX * DimY) < sint (count g) + int (length (pos piece))))"
proof (intro conjI impI)
  show "(\<exists>b e g'. add g piece a = Done ((b, Some e), g')) \<longleftrightarrow>
      word_of_nat (DimX * DimY) <s count g + word_of_nat (length (pos piece))"
    by (auto simp: add_def split: exec.splits option.splits)
next
  assume "word_of_nat (DimX * DimY) <s count g + word_of_nat (length (pos piece))"
  then show "add g piece a = Done ((False, Some ErrBoardFull), g)"
    by (simp add: add_def)
next
  assume "sint (count g) + int (length (pos piece)) < 2 ^ 63"
  then have "sint (count g + word_of_nat (length (pos piece))) =
      sint (count g) + int (length (pos piece))"
    by (rule sint_add_of_nat)
  moreover have "sint (word_of_nat (DimX * DimY) :: goint) = int (DimX * DimY)"
    by (rule sint_small) (simp add: DimX_def DimY_def)
  ultimately show "word_of_nat (DimX * DimY) <s count g + word_of_nat (length (pos piece)) \<longleftrightarrow>
       int (DimX * DimY) < sint (count g) + int (length (pos piece))"
    by (simp only: word_sless_alt)
qed

theorem add_error_iff_witness:
  "sint (count full_Game) + int (length (pos turquoise)) = 58 \<and>
   add full_Game turquoise (9, 9) = Done ((False, Some ErrBoardFull), full_Game) \<and>
   sint (count new_Game) + int (length (pos turquoise)) = 3 \<and>
   add new_Game turquoise (9, 9) = Done ((False, None), new_Game)"
proof -
  have c: "sint (count full_Game) + int (length (pos turquoise)) = 58"
    "sint (count new_Game) + int (length (pos turquoise)) = 3"
    by (simp_all add: full_Game_def new_Game_def turquoise_def)
  have "int (DimX * DimY) = 55" by (simp add: DimX_def DimY_def)
  with c add_error_iff [of full_Game turquoise "(9, 9)"]
  have "add full_Game turquoise (9, 9) = Done ((False, Some ErrBoardFull), full_Game)"
    by simp
  moreover have "add new_Game turquoise (9, 9) = Done ((False, None), new_Game)"
    by code_simp
  ultimately show ?thesis using c by simp
qed

text \<open>
  Claim C9. Every piece of the catalog has at most five cells and \<open>transform\<close> keeps the
  number of cells. So every orientation of a catalog piece has at most five cells, and
  \<open>add\<close> never panics on it, on any game and at any anchor: no index into the buffer
  \<open>image\<close> (or into the grid) is out of range.
\<close>

theorem image_buffer_in_bounds:
  "(\<forall>p\<in>set pieces. length (pos p) \<le> 5) \<and>
   (\<forall>p m. length (pos (transform p m)) = length (pos p)) \<and>
   (\<forall>p\<in>set pieces. \<forall>v\<in>set (allVersions p).
      length (pos v) \<le> 5 \<and> (\<forall>g a. add g v a \<noteq> Panic))"
proof (intro conjI ballI allI)
  fix p assume "p \<in> set pieces"
  then show "length (pos p) \<le> 5"
    using catalog_sizes by (simp add: list_all_iff)
next
  fix p m show "length (pos (transform p m)) = length (pos p)"
    by (simp add: transform_def)
next
  fix p v assume p: "p \<in> set pieces" and v: "v \<in> set (allVersions p)"
  from v have "length (pos v) = length (pos p)"
    by (auto simp: allVersions_eq transform_def dest!: in_set_takeD)
  with p catalog_sizes show "length (pos v) \<le> 5"
    by (simp add: list_all_iff)
  fix g a
  from \<open>length (pos v) \<le> 5\<close> show "add g v a \<noteq> Panic"
    by (rule add_no_panic)
qed

theorem image_buffer_in_bounds_witness:
  "pieces ! 2 \<in> set pieces \<and>
   transform (pieces ! 2) Rot90 \<in> set (allVersions (pieces ! 2)) \<and>
   length (pos (transform (pieces ! 2) Rot90)) = 5 \<and>
   add new_Game (transform (pieces ! 2) Rot90) (0, 2) \<noteq> Panic"
proof -
  have p: "pieces ! 2 \<in> set pieces"
    by (simp add: pieces_def)
  have v: "transform (pieces ! 2) Rot90 \<in> set (allVersions (pieces ! 2))"
    by (simp add: allVersions_eq tx_def pieces_def)
  have "length (pos (transform (pieces ! 2) Rot90)) = 5"
    by (simp add: transform_def pieces_def)
  with image_buffer_in_bounds p v show ?thesis by blast
qed

section \<open>Sessions of the search\<close>

text \<open>
  Claim C2, as the code has it. In every session reached from a parsed starting board,
  the count is the count of the starting board plus the sum of the image sizes of the
  moves on the stack, and it is the number of \<open>true\<close> cells of the grid. Every \<open>add\<close>
  that places an orientation of a catalog piece and every \<open>pop\<close> that succeeds leads to
  a session again, so both keep this.
\<close>

theorem session_count:
  assumes "reachable g0 g"
  shows "sint (count g) = sint (count g0) + int (sum_list (map (\<lambda>m. length (image m)) (moves g)))
       \<and> sint (count g) = int (count_true (cells g))"
proof -
  from reachable_inv [OF assms] have inv: "session_inv g0 g" .
  then have wf: "wf_cells (cells g)" "wf_cells (cells g0)"
    by (simp_all add: session_inv_def)
  have len: "length (stack_cells g) = sum_list (map (\<lambda>m. length (image m)) (moves g))"
    by (simp add: stack_cells_def length_concat comp_def)
  have "card (idx ` set (stack_cells g)) = length (stack_cells g)"
  proof -
    have "card (idx ` set (stack_cells g)) = card (set (stack_cells g))"
      by (rule card_image) (simp add: inj_on_def idx_inj)
    also have "\<dots> = length (stack_cells g)"
      using inv by (simp add: session_inv_def distinct_card)
    finally show ?thesis .
  qed
  moreover have "card (occ (cells g)) = card (occ (cells g0)) + card (idx ` set (stack_cells g))"
  proof -
    have "occ (cells g) = occ (cells g0) \<union> idx ` set (stack_cells g)"
      and "occ (cells g0) \<inter> idx ` set (stack_cells g) = {}"
      using inv by (auto simp: session_inv_def)
    then show ?thesis
      by (simp add: card_Un_disjoint finite_occ)
  qed
  ultimately have card: "card (occ (cells g)) = card (occ (cells g0)) + length (stack_cells g)"
    by simp
  have "count g = word_of_nat (card (occ (cells g)))"
    using inv card by (simp add: session_inv_def)
  then have c: "sint (count g) = int (card (occ (cells g)))"
    by (simp add: sint_small card_occ_le)
  have "count g0 = word_of_nat (card (occ (cells g0)))"
    using inv by (simp add: session_inv_def)
  then have c0: "sint (count g0) = int (card (occ (cells g0)))"
    by (simp add: sint_small card_occ_le)
  show ?thesis
    using c c0 card len by (simp add: count_true_card wf)
qed

theorem session_count_witness:
  "reachable new_Game turquoise_Game \<and>
   sint (count new_Game) = 0 \<and>
   sum_list (map (\<lambda>m. length (image m)) (moves turquoise_Game)) = 3 \<and>
   sint (count turquoise_Game) = 3 \<and>
   count_true (cells turquoise_Game) = 3"
proof -
  have "parseBoard free_board = Inr new_Game"
    by code_simp
  then have r0: "reachable new_Game new_Game"
    by (rule reachable.start)
  have p: "pieces ! 9 \<in> set pieces"
    by (simp add: pieces_def)
  have v: "turquoise \<in> set (allVersions (pieces ! 9))"
    by (simp add: allVersions_eq tx_def pieces_def turquoise_def transform_def
        Transform_def Identity_def)
  have a: "add new_Game turquoise (0, 0) = Done ((True, None), turquoise_Game)"
    by code_simp
  have r: "reachable new_Game turquoise_Game"
    by (rule reachable.by_add [OF r0 p v a])
  have "sint (count new_Game) = 0"
    "sum_list (map (\<lambda>m. length (image m)) (moves turquoise_Game)) = 3"
    by (simp_all add: new_Game_def turquoise_Game_def image_def turquoise_def)
  with session_count [OF r] r show ?thesis by simp
qed

text \<open>
  The count is not the sum of the image sizes alone: the board the flag \<open>board\<close>
  defaults to parses to a game of count 55 with no move on the stack.
\<close>

theorem session_count_not_stack_sum:
  "parseBoard default_board = Inr full_Game \<and> reachable full_Game full_Game \<and>
   sint (count full_Game) = 55 \<and>
   sum_list (map (\<lambda>m. length (image m)) (moves full_Game)) = 0 \<and>
   count_true (cells full_Game) = 55"
proof -
  have p: "parseBoard default_board = Inr full_Game"
    by code_simp
  then have "reachable full_Game full_Game"
    by (rule reachable.start)
  moreover have "sint (count full_Game) = 55"
    "sum_list (map (\<lambda>m. length (image m)) (moves full_Game)) = 0"
    by (simp_all add: full_Game_def)
  moreover have "count_true (cells full_Game) = 55"
    by code_simp
  ultimately show ?thesis using p by simp
qed

section \<open>The end of the pool\<close>

text \<open>
  Claim C7. With no piece left, \<open>solve\<close> sends the move stack on the channel and returns
  no error exactly when the count is \<open>DimX * DimY\<close>; otherwise it returns the error
  \<open>ErrNotFull\<close> and sends nothing.
\<close>

theorem solve_empty_pool:
  "solve [] g ch =
     (if count g = word_of_nat (DimX * DimY) then Done (None, g, ch @ [moves g])
      else Done (Some ErrNotFull, g, ch))"
  by simp

theorem solve_empty_pool_witness:
  "solve [] full_Game [] = Done (None, full_Game, [[]]) \<and>
   solve [] turquoise_Game [] = Done (Some ErrNotFull, turquoise_Game, [])"
  using solve_empty_pool [of full_Game "[]"] solve_empty_pool [of turquoise_Game "[]"]
  by (simp add: full_Game_def turquoise_Game_def DimX_def DimY_def)

text \<open>
  Claim C10. Called with an empty pool, \<open>solveP\<close> returns the nil channel: no channel is
  made, so none is closed.
\<close>

theorem solveP_empty_pool:
  "solveP g [] = NilChan \<and> (\<forall>bs. solveP g [] \<noteq> Chan bs)"
  by (simp add: solveP_def)

theorem solveP_empty_pool_witness:
  "precompute [] = [] \<and> solveP full_Game (precompute []) = NilChan"
  using solveP_empty_pool [of full_Game] by (simp add: precompute_def)

end
